theory Spec2Isabelle
  imports Main "HOL-Library.Word"
begin

section \<open>The cache-field stripper of \<^verbatim>\<open>scripts/clear-cache.py\<close>\<close>

text \<open>
  The script scans one directory for \<^verbatim>\<open>*.json\<close> files, loads each one with
  \<^verbatim>\<open>json.load\<close>, deletes the key \<^verbatim>\<open>rendered\<close> from every element of the value stored
  under \<^verbatim>\<open>messages\<close>, writes the record back with \<^verbatim>\<open>json.dump(data, f, indent=2)\<close>
  and prints one line at the end. The embedding follows the script line by line. An
  uncaught Python exception ends the script at once, so every operation that can raise
  returns a sum whose left injection is the exception.

  The model takes as its input the listing of the directory that line 10 names. It has
  no file permissions and no other process: a file that is listed can be opened, and
  nothing but the script changes the directory during a run. \<^verbatim>\<open>json.dump\<close> does not
  raise on a value that \<^verbatim>\<open>json.load\<close> has built.
\<close>

subsection \<open>Values produced by \<^verbatim>\<open>json.load\<close>\<close>

text \<open>
  \<^verbatim>\<open>json.load\<close> yields \<^verbatim>\<open>None\<close>, \<^verbatim>\<open>bool\<close>, \<^verbatim>\<open>int\<close>, \<^verbatim>\<open>float\<close>, \<^verbatim>\<open>str\<close>, \<^verbatim>\<open>list\<close> and
  \<^verbatim>\<open>dict\<close> objects. A \<^verbatim>\<open>dict\<close> keeps its keys in insertion order, which is the order
  \<^verbatim>\<open>json.dump\<close> writes them in, so it is an association list. A float is its IEEE 754
  bit pattern; the script never computes with numbers.
\<close>

datatype json =
    JNull
  | JBool bool
  | JInt int
  | JFloat "64 word"
  | JStr string
  | JArr "json list"
  | JObj "(string \<times> json) list"

datatype py_error =
    TypeError
  | KeyError
  | JSONDecodeError
  | UnicodeDecodeError
  | IsADirectoryError
  | FileNotFoundError

text \<open>
  A Python \<^verbatim>\<open>dict\<close> has no two equal keys. \<open>py_value\<close> is this invariant, at every
  depth; every object that \<^verbatim>\<open>json.load\<close> builds satisfies it.
\<close>

fun py_value :: "json \<Rightarrow> bool" where
  "py_value (JArr xs) = (\<forall>x \<in> set xs. py_value x)"
| "py_value (JObj kvs) = (distinct (map fst kvs) \<and> (\<forall>v \<in> snd ` set kvs. py_value v))"
| "py_value _ = True"

subsection \<open>The operators the script applies to loaded values\<close>

text \<open>\<^verbatim>\<open>needle in hay\<close> for two \<^verbatim>\<open>str\<close> objects: \<open>needle\<close> occurs in \<open>hay\<close> as a
  contiguous run of characters.\<close>

fun is_substring :: "string \<Rightarrow> string \<Rightarrow> bool" where
  "is_substring needle [] = (needle = [])"
| "is_substring needle (c # cs) =
     (take (length needle) (c # cs) = needle \<or> is_substring needle cs)"

text \<open>
  \<^verbatim>\<open>key in x\<close> where \<open>key\<close> is a \<^verbatim>\<open>str\<close>: a \<^verbatim>\<open>dict\<close> tests its keys, a \<^verbatim>\<open>list\<close> compares
  its elements with \<open>key\<close> by \<^verbatim>\<open>==\<close>, a \<^verbatim>\<open>str\<close> searches for a substring, and
  \<^verbatim>\<open>None\<close>, \<^verbatim>\<open>bool\<close>, \<^verbatim>\<open>int\<close> and \<^verbatim>\<open>float\<close> raise \<^verbatim>\<open>TypeError\<close> (not iterable).
\<close>

fun py_contains :: "string \<Rightarrow> json \<Rightarrow> py_error + bool" where
  "py_contains key (JObj kvs) = Inr (key \<in> set (map fst kvs))"
| "py_contains key (JArr xs) = Inr (JStr key \<in> set xs)"
| "py_contains key (JStr s) = Inr (is_substring key s)"
| "py_contains key _ = Inl TypeError"

text \<open>
  \<^verbatim>\<open>x[key]\<close> with a \<^verbatim>\<open>str\<close> key: a \<^verbatim>\<open>dict\<close> returns the value or raises \<^verbatim>\<open>KeyError\<close>;
  every other type raises \<^verbatim>\<open>TypeError\<close> (a \<^verbatim>\<open>list\<close> and a \<^verbatim>\<open>str\<close> take integer
  indices only, the rest are not subscriptable).
\<close>

fun py_getitem :: "json \<Rightarrow> string \<Rightarrow> py_error + json" where
  "py_getitem (JObj kvs) key =
     (case map_of kvs key of None \<Rightarrow> Inl KeyError | Some v \<Rightarrow> Inr v)"
| "py_getitem _ key = Inl TypeError"

text \<open>
  \<^verbatim>\<open>del x[key]\<close> with a \<^verbatim>\<open>str\<close> key: a \<^verbatim>\<open>dict\<close> loses the key (the other items keep
  their order) or raises \<^verbatim>\<open>KeyError\<close>; every other type raises \<^verbatim>\<open>TypeError\<close>.
\<close>

definition remove_key :: "string \<Rightarrow> (string \<times> json) list \<Rightarrow> (string \<times> json) list" where
  "remove_key key kvs = filter (\<lambda>kv. fst kv \<noteq> key) kvs"

fun py_delitem :: "json \<Rightarrow> string \<Rightarrow> py_error + json" where
  "py_delitem (JObj kvs) key =
     (if key \<in> set (map fst kvs) then Inr (JObj (remove_key key kvs)) else Inl KeyError)"
| "py_delitem _ key = Inl TypeError"

text \<open>
  The objects a \<^verbatim>\<open>for\<close> loop receives from \<^verbatim>\<open>iter(x)\<close>: the elements of a \<^verbatim>\<open>list\<close>, the
  keys of a \<^verbatim>\<open>dict\<close>, the one-character strings of a \<^verbatim>\<open>str\<close>; the other types raise
  \<^verbatim>\<open>TypeError\<close>. A \<^verbatim>\<open>str\<close> is modelled by its list of characters; the script compares
  strings with the two ASCII keys only, and no string of one character contains either.
\<close>

fun py_iter :: "json \<Rightarrow> py_error + json list" where
  "py_iter (JArr xs) = Inr xs"
| "py_iter (JObj kvs) = Inr (map (\<lambda>kv. JStr (fst kv)) kvs)"
| "py_iter (JStr s) = Inr (map (\<lambda>c. JStr [c]) s)"
| "py_iter _ = Inl TypeError"

text \<open>The object stored under a key that the \<^verbatim>\<open>dict\<close> already has is replaced where it
  stands (the first item with that key, the one \<open>py_getitem\<close> reads).\<close>

fun replace_item :: "string \<Rightarrow> json \<Rightarrow> (string \<times> json) list \<Rightarrow> (string \<times> json) list" where
  "replace_item key v [] = []"
| "replace_item key v (kv # kvs) =
     (if fst kv = key then (key, v) # kvs else kv # replace_item key v kvs)"

subsection \<open>Lines 14 to 17: the record in memory\<close>

text \<open>
  Lines 16 and 17, for one element of the loop:
  \<^verbatim>\<open>if 'rendered' in msg: del msg['rendered']\<close>.
\<close>

definition strip_msg :: "json \<Rightarrow> py_error + json" where
  "strip_msg msg =
     (case py_contains ''rendered'' msg of
        Inl e \<Rightarrow> Inl e
      | Inr has \<Rightarrow> if has then py_delitem msg ''rendered'' else Inr msg)"

text \<open>
  The body of the loop run over the elements in order; the first exception ends it. The
  result is the list of the elements as the loop leaves them.
\<close>

fun strip_loop :: "json list \<Rightarrow> py_error + json list" where
  "strip_loop [] = Inr []"
| "strip_loop (msg # rest) =
     (case strip_msg msg of
        Inl e \<Rightarrow> Inl e
      | Inr msg' \<Rightarrow>
          (case strip_loop rest of
             Inl e \<Rightarrow> Inl e
           | Inr rest' \<Rightarrow> Inr (msg' # rest')))"

text \<open>
  Lines 15 to 17: \<^verbatim>\<open>for msg in data['messages']: ...\<close>. The elements of a \<^verbatim>\<open>list\<close> are
  the objects the loop mutates, so the list holds the stripped elements afterwards, in
  the same positions. The keys of a \<^verbatim>\<open>dict\<close> and the characters of a \<^verbatim>\<open>str\<close> reach the
  loop as \<^verbatim>\<open>str\<close> objects, on which \<^verbatim>\<open>del\<close> raises; when the loop ends without an
  exception it has changed nothing.
\<close>

definition strip_messages :: "json \<Rightarrow> py_error + json" where
  "strip_messages msgs =
     (case py_iter msgs of
        Inl e \<Rightarrow> Inl e
      | Inr items \<Rightarrow>
          (case strip_loop items of
             Inl e \<Rightarrow> Inl e
           | Inr items' \<Rightarrow> Inr (case msgs of JArr _ \<Rightarrow> JArr items' | _ \<Rightarrow> msgs)))"

definition strip_rendered :: "json \<Rightarrow> py_error + json" where
  "strip_rendered data =
     (case py_getitem data ''messages'' of
        Inl e \<Rightarrow> Inl e
      | Inr msgs \<Rightarrow>
          (case strip_messages msgs of
             Inl e \<Rightarrow> Inl e
           | Inr msgs' \<Rightarrow>
               Inr (case data of
                      JObj kvs \<Rightarrow> JObj (replace_item ''messages'' msgs' kvs)
                    | _ \<Rightarrow> data)))"

text \<open>Lines 14 to 17: the record as it is in memory once the \<^verbatim>\<open>if\<close> statement is
  over.\<close>

definition process_record :: "json \<Rightarrow> py_error + json" where
  "process_record data =
     (case py_contains ''messages'' data of
        Inl e \<Rightarrow> Inl e
      | Inr has \<Rightarrow> if has then strip_rendered data else Inr data)"

text \<open>
  The data model of the specification (section 3), used to state that the script does
  not raise on it: a session record is a mapping whose \<^verbatim>\<open>messages\<close> field, when it is
  there, is a list of mappings.
\<close>

fun is_mapping :: "json \<Rightarrow> bool" where
  "is_mapping (JObj kvs) = True"
| "is_mapping _ = False"

definition session_record :: "json \<Rightarrow> bool" where
  "session_record data =
     (case data of
        JObj kvs \<Rightarrow>
          (case map_of kvs ''messages'' of
             None \<Rightarrow> True
           | Some (JArr msgs) \<Rightarrow> list_all is_mapping msgs
           | Some _ \<Rightarrow> False)
      | _ \<Rightarrow> False)"

subsection \<open>The directory and the files\<close>

text \<open>
  The directory is the list of its entries in the order the operating system lists them;
  an entry is a regular file with its contents or a subdirectory. The type \<open>'c\<close> of file
  contents is left open: the script hands them to \<^verbatim>\<open>json.load\<close> and receives them from
  \<^verbatim>\<open>json.dump\<close>, two functions of Python's standard library, which are parameters
  \<open>load\<close> and \<open>dump\<close> of the model. \<open>load\<close> stands for opening the file as text and
  parsing it, so its exceptions include the decoding errors; \<open>dump\<close> receives the
  \<^verbatim>\<open>indent\<close> argument.
\<close>

datatype 'c node = File 'c | Dir

type_synonym 'c directory = "(string \<times> 'c node) list"

datatype io_event = Read string | Write string

text \<open>\<^verbatim>\<open>name.endswith(suffix)\<close>.\<close>

definition endswith :: "string \<Rightarrow> string \<Rightarrow> bool" where
  "endswith name suffix =
     (length suffix \<le> length name \<and> drop (length name - length suffix) name = suffix)"

text \<open>
  Line 11, \<^verbatim>\<open>sessions_dir.glob("*.json")\<close>: the names of the entries, files and
  subdirectories alike, that end in \<^verbatim>\<open>.json\<close>, in listing order. \<^verbatim>\<open>pathlib\<close> matches
  names that start with a dot too, and \<^verbatim>\<open>*\<close> matches the empty string.
\<close>

definition glob_json :: "'c directory \<Rightarrow> string list" where
  "glob_json d = filter (\<lambda>name. endswith name ''.json'') (map fst d)"

text \<open>\<^verbatim>\<open>open(path, 'r')\<close> followed by reading the file.\<close>

definition open_read :: "'c directory \<Rightarrow> string \<Rightarrow> py_error + 'c" where
  "open_read d path =
     (case map_of d path of
        None \<Rightarrow> Inl FileNotFoundError
      | Some Dir \<Rightarrow> Inl IsADirectoryError
      | Some (File c) \<Rightarrow> Inr c)"

text \<open>\<^verbatim>\<open>open(path, 'w')\<close> followed by writing \<open>c\<close>, for a path that names a regular
  file: the entry keeps its place in the listing and its contents are replaced.\<close>

fun write_file :: "string \<Rightarrow> 'c \<Rightarrow> 'c directory \<Rightarrow> 'c directory" where
  "write_file path c [] = []"
| "write_file path c (entry # d) =
     (if fst entry = path then (path, File c) # d else entry # write_file path c d)"

subsection \<open>Lines 12 to 19: one file\<close>

text \<open>
  The result of a piece of the script is the directory it leaves, the files it has read
  and written, in order, and the exception that ended it, if any.
\<close>

type_synonym 'c effect = "'c directory \<times> io_event list \<times> py_error option"

definition process_file ::
  "('c \<Rightarrow> py_error + json) \<Rightarrow> (json \<Rightarrow> nat \<Rightarrow> 'c) \<Rightarrow> string \<Rightarrow> 'c directory \<Rightarrow> 'c effect" where
  "process_file load dump path d =
     (case open_read d path of
        Inl e \<Rightarrow> (d, [], Some e)
      | Inr c \<Rightarrow>
          (case load c of
             Inl e \<Rightarrow> (d, [Read path], Some e)
           | Inr data \<Rightarrow>
               (case py_contains ''messages'' data of
                  Inl e \<Rightarrow> (d, [Read path], Some e)
                | Inr has \<Rightarrow>
                    if has then
                      (case strip_rendered data of
                         Inl e \<Rightarrow> (d, [Read path], Some e)
                       | Inr data' \<Rightarrow>
                           (write_file path (dump data' 2) d, [Read path, Write path], None))
                    else (d, [Read path], None))))"

subsection \<open>Lines 11 to 20: the whole script\<close>

fun for_files ::
  "('c \<Rightarrow> py_error + json) \<Rightarrow> (json \<Rightarrow> nat \<Rightarrow> 'c) \<Rightarrow> string list \<Rightarrow> 'c directory \<Rightarrow> 'c effect" where
  "for_files load dump [] d = (d, [], None)"
| "for_files load dump (path # paths) d =
     (case process_file load dump path d of
        (d', ev, Some e) \<Rightarrow> (d', ev, Some e)
      | (d', ev, None) \<Rightarrow>
          (case for_files load dump paths d' of
             (d'', ev', r) \<Rightarrow> (d'', ev @ ev', r)))"

text \<open>The line that line 20 prints: U+2705 in UTF-8, then \<^verbatim>\<open> Cache cleared\<close>.\<close>

definition cache_cleared :: string where
  "cache_cleared = [CHR 0xE2, CHR 0x9C, CHR 0x85] @ '' Cache cleared''"

record 'c outcome =
  files :: "'c directory"
  events :: "io_event list"
  stdout :: "string list"
  raised :: "py_error option"

definition clear_cache ::
  "('c \<Rightarrow> py_error + json) \<Rightarrow> (json \<Rightarrow> nat \<Rightarrow> 'c) \<Rightarrow> 'c directory \<Rightarrow> 'c outcome" where
  "clear_cache load dump d =
     (case for_files load dump (glob_json d) d of
        (d', ev, None) \<Rightarrow> \<lparr>files = d', events = ev, stdout = [cache_cleared], raised = None\<rparr>
      | (d', ev, Some e) \<Rightarrow> \<lparr>files = d', events = ev, stdout = [], raised = Some e\<rparr>)"

subsection \<open>A codec for the examples\<close>

text \<open>
  The examples need file contents and a codec to run on. A text is represented by the
  Python value it denotes and its layout, or it is a text that \<^verbatim>\<open>json.load\<close> rejects;
  \<^verbatim>\<open>json.dump\<close> with \<^verbatim>\<open>indent=n\<close> produces the layout \<open>Indented n\<close>.
\<close>

datatype layout = Compact | Indented nat

datatype file_text = Doc layout json | Malformed string

fun json_load :: "file_text \<Rightarrow> py_error + json" where
  "json_load (Doc l v) = (if py_value v then Inr v else Inl JSONDecodeError)"
| "json_load (Malformed s) = Inl JSONDecodeError"

definition json_dump :: "json \<Rightarrow> nat \<Rightarrow> file_text" where
  "json_dump v n = Doc (Indented n) v"

section \<open>Predicates used in the statements\<close>

text \<open>
  Every \<open>Write\<close> in a list of events has a \<open>Read\<close> of the same path before it.
\<close>

definition read_before_write :: "io_event list \<Rightarrow> bool" where
  "read_before_write ev \<longleftrightarrow>
     (\<forall>i < length ev. \<forall>p. ev ! i = Write p \<longrightarrow> (\<exists>j < i. ev ! j = Read p))"

text \<open>
  What the idempotence of the script needs of the standard library: \<^verbatim>\<open>json.load\<close>
  returns Python values only, and a Python value written by \<^verbatim>\<open>json.dump\<close> with
  \<^verbatim>\<open>indent=2\<close> is read back by \<^verbatim>\<open>json.load\<close> as the same value, with its keys in the
  same order.
\<close>

definition codec_roundtrip :: "('c \<Rightarrow> py_error + json) \<Rightarrow> (json \<Rightarrow> nat \<Rightarrow> 'c) \<Rightarrow> bool" where
  "codec_roundtrip load dump \<longleftrightarrow>
     (\<forall>c data. load c = Inr data \<longrightarrow> py_value data) \<and>
     (\<forall>data. py_value data \<longrightarrow> load (dump data 2) = Inr data)"

section \<open>Example records and directories\<close>

text \<open>
  The scenarios of the specification: \<^verbatim>\<open>a.json\<close> holds
  \<^verbatim>\<open>{"messages":[{"text":"hi","rendered":"<p>hi</p>"}]}\<close> and \<^verbatim>\<open>b.json\<close> holds
  \<^verbatim>\<open>{"other":1}\<close>, both on one line. \<open>ex_nested\<close> has a \<^verbatim>\<open>rendered\<close> key at three
  depths: in the record, in a message and inside a value of a message. \<open>ex_clean\<close>
  has messages and no \<^verbatim>\<open>rendered\<close> key.
\<close>

definition ex_entry :: "(string \<times> json) list" where
  "ex_entry = [(''text'', JStr ''hi''), (''rendered'', JStr ''<p>hi</p>'')]"

definition ex_record :: json where
  "ex_record = JObj [(''messages'', JArr [JObj ex_entry])]"

definition ex_plain :: json where
  "ex_plain = JObj [(''other'', JInt 1)]"

definition ex_nested :: json where
  "ex_nested =
     JObj [(''rendered'', JStr ''top''),
           (''messages'',
              JArr [JObj [(''text'', JStr ''a'')],
                    JObj [(''rendered'', JStr ''<p>b</p>''),
                          (''meta'', JObj [(''rendered'', JStr ''deep'')])]]),
           (''title'', JStr ''t'')]"

definition ex_nested_stripped :: json where
  "ex_nested_stripped =
     JObj [(''rendered'', JStr ''top''),
           (''messages'',
              JArr [JObj [(''text'', JStr ''a'')],
                    JObj [(''meta'', JObj [(''rendered'', JStr ''deep'')])]]),
           (''title'', JStr ''t'')]"

definition ex_a_text :: file_text where
  "ex_a_text = Doc Compact ex_record"

definition ex_b_text :: file_text where
  "ex_b_text = Doc Compact ex_plain"

definition ex_dir :: "file_text directory" where
  "ex_dir = [(''a.json'', File ex_a_text), (''b.json'', File ex_b_text),
             (''notes.txt'', File (Malformed ''hello''))]"

definition ex_dir_after :: "file_text directory" where
  "ex_dir_after =
     [(''a.json'', File (Doc (Indented 2) (JObj [(''messages'', JArr [JObj [(''text'', JStr ''hi'')]])]))),
      (''b.json'', File ex_b_text),
      (''notes.txt'', File (Malformed ''hello''))]"

definition ex_other_dir :: "file_text directory" where
  "ex_other_dir = [(''notes.txt'', File (Malformed ''hello'')), (''json'', Dir)]"

definition ex_clean :: json where
  "ex_clean = JObj [(''messages'', JArr [JObj [(''text'', JStr ''a'')]])]"

definition ex_c_text :: file_text where
  "ex_c_text = Doc Compact ex_clean"

definition ex_clean_dir :: "file_text directory" where
  "ex_clean_dir = [(''c.json'', File ex_c_text), (''b.json'', File ex_b_text)]"

definition ex_clean_dir_after :: "file_text directory" where
  "ex_clean_dir_after = [(''c.json'', File (Doc (Indented 2) ex_clean)), (''b.json'', File ex_b_text)]"

section \<open>Properties of the record in memory\<close>

subsection \<open>Deleting and replacing items of a dict\<close>

lemma remove_key_absent: "key \<notin> set (map fst kvs) \<Longrightarrow> remove_key key kvs = kvs"
  by (induction kvs) (auto simp: remove_key_def)

lemma remove_key_keys: "key \<notin> set (map fst (remove_key key kvs))"
  by (auto simp: remove_key_def)

lemma remove_key_map_of: "k \<noteq> key \<Longrightarrow> map_of (remove_key key kvs) k = map_of kvs k"
  by (induction kvs) (auto simp: remove_key_def)

lemma remove_key_idem: "remove_key key (remove_key key kvs) = remove_key key kvs"
  by (simp add: remove_key_def)

lemma strip_msg_mapping: "strip_msg (JObj e) = Inr (JObj (remove_key ''rendered'' e))"
  by (simp add: strip_msg_def remove_key_absent)

lemma strip_msg_result:
  "strip_msg m = Inr m' \<Longrightarrow> m' = (case m of JObj e \<Rightarrow> JObj (remove_key ''rendered'' e) | _ \<Rightarrow> m)"
  by (cases m) (auto simp: strip_msg_def remove_key_absent split: if_splits)

lemma strip_msg_unchanged:
  "strip_msg m = Inr m' \<Longrightarrow> py_contains ''rendered'' m = Inr False \<Longrightarrow> m' = m"
  by (simp add: strip_msg_def)

lemma strip_msg_idem: "strip_msg m = Inr m' \<Longrightarrow> strip_msg m' = Inr m'"
proof (cases m)
  case (JObj e)
  assume "strip_msg m = Inr m'"
  with JObj have "m' = JObj (remove_key ''rendered'' e)" by (simp add: strip_msg_mapping)
  then show ?thesis by (simp add: strip_msg_mapping remove_key_idem)
qed (auto simp: strip_msg_def split: if_splits)

lemma strip_loop_length: "strip_loop ms = Inr ms' \<Longrightarrow> length ms' = length ms"
  by (induction ms arbitrary: ms') (auto split: sum.splits)

lemma strip_loop_nth:
  "strip_loop ms = Inr ms' \<Longrightarrow> i < length ms \<Longrightarrow> strip_msg (ms ! i) = Inr (ms' ! i)"
proof (induction ms arbitrary: ms' i)
  case Nil
  then show ?case by simp
next
  case (Cons m ms)
  then show ?case
    by (cases i) (auto split: sum.splits)
qed

lemma strip_loop_idem: "strip_loop ms = Inr ms' \<Longrightarrow> strip_loop ms' = Inr ms'"
  by (induction ms arbitrary: ms') (auto split: sum.splits simp: strip_msg_idem)

lemma strip_loop_mappings:
  "list_all is_mapping ms \<Longrightarrow> \<exists>ms'. strip_loop ms = Inr ms'"
proof (induction ms)
  case Nil
  show ?case by simp
next
  case (Cons m ms)
  then obtain e where "m = JObj e" by (cases m) auto
  with Cons show ?case by (auto simp: strip_msg_mapping)
qed

lemma replace_item_keys: "map fst (replace_item key v kvs) = map fst kvs"
  by (induction kvs) auto

lemma replace_item_length: "length (replace_item key v kvs) = length kvs"
  by (induction kvs) auto

lemma replace_item_map_of_same:
  "key \<in> set (map fst kvs) \<Longrightarrow> map_of (replace_item key v kvs) key = Some v"
  by (induction kvs) auto

lemma replace_item_map_of_other:
  "k \<noteq> key \<Longrightarrow> map_of (replace_item key v kvs) k = map_of kvs k"
  by (induction kvs) auto

lemma replace_item_nth:
  "j < length kvs \<Longrightarrow> fst (kvs ! j) \<noteq> key \<Longrightarrow> replace_item key v kvs ! j = kvs ! j"
proof (induction kvs arbitrary: j)
  case Nil
  then show ?case by simp
next
  case (Cons kv kvs)
  then show ?case by (cases j) auto
qed

lemma replace_item_same: "map_of kvs key = Some v \<Longrightarrow> replace_item key v kvs = kvs"
  by (induction kvs) (auto split: if_splits)

lemma replace_item_idem:
  "replace_item key v (replace_item key v kvs) = replace_item key v kvs"
  by (induction kvs) auto

lemma map_of_in_keys: "map_of kvs key = Some v \<Longrightarrow> key \<in> set (map fst kvs)"
  by (induction kvs) (auto split: if_splits)

text \<open>What a successful run of lines 14 to 17 has done, for a record whose messages are a list.\<close>

lemma strip_messages_list:
  "strip_messages (JArr ms) = Inr msgs' \<longleftrightarrow> (\<exists>ms'. strip_loop ms = Inr ms' \<and> msgs' = JArr ms')"
  by (auto simp: strip_messages_def split: sum.splits)

lemma strip_messages_idem: "strip_messages msgs = Inr msgs' \<Longrightarrow> strip_messages msgs' = Inr msgs'"
  by (cases msgs) (auto simp: strip_messages_def strip_loop_idem split: sum.splits)

lemma strip_rendered_mapping:
  "strip_rendered data = Inr data' \<longleftrightarrow>
     (\<exists>kvs msgs msgs'. data = JObj kvs \<and> map_of kvs ''messages'' = Some msgs \<and>
        strip_messages msgs = Inr msgs' \<and> data' = JObj (replace_item ''messages'' msgs' kvs))"
  by (cases data) (auto simp: strip_rendered_def split: sum.splits option.splits)

lemma strip_rendered_idem:
  assumes "strip_rendered data = Inr data'"
  shows "strip_rendered data' = Inr data'"
proof -
  from assms obtain kvs msgs msgs' where d: "data = JObj kvs"
    and m: "map_of kvs ''messages'' = Some msgs"
    and s: "strip_messages msgs = Inr msgs'"
    and d': "data' = JObj (replace_item ''messages'' msgs' kvs)"
    unfolding strip_rendered_mapping by blast
  from map_of_in_keys[OF m]
  have "map_of (replace_item ''messages'' msgs' kvs) ''messages'' = Some msgs'"
    by (rule replace_item_map_of_same)
  moreover from s have "strip_messages msgs' = Inr msgs'" by (rule strip_messages_idem)
  ultimately show ?thesis
    unfolding strip_rendered_mapping d' by (auto simp: replace_item_idem)
qed

lemma strip_rendered_contains:
  "strip_rendered data = Inr data' \<Longrightarrow> py_contains key data' = py_contains key data"
  unfolding strip_rendered_mapping by (auto simp: replace_item_keys)

lemma process_record_list:
  assumes "process_record data = Inr data'"
    and "py_getitem data ''messages'' = Inr (JArr msgs)"
  shows "\<exists>kvs msgs'. data = JObj kvs \<and> data' = JObj (replace_item ''messages'' (JArr msgs') kvs) \<and>
           py_getitem data' ''messages'' = Inr (JArr msgs') \<and> strip_loop msgs = Inr msgs'"
proof -
  from assms(2) obtain kvs where d: "data = JObj kvs" and m: "map_of kvs ''messages'' = Some (JArr msgs)"
    by (cases data) (auto split: option.splits)
  from m have k: "''messages'' \<in> set (map fst kvs)" by (rule map_of_in_keys)
  with assms(1) d have "strip_rendered (JObj kvs) = Inr data'"
    by (simp add: process_record_def)
  with m obtain v where "strip_messages (JArr msgs) = Inr v"
    and v: "data' = JObj (replace_item ''messages'' v kvs)"
    unfolding strip_rendered_mapping by auto
  then obtain msgs' where s: "strip_loop msgs = Inr msgs'"
    and d': "data' = JObj (replace_item ''messages'' (JArr msgs') kvs)"
    unfolding strip_messages_list by auto
  from k have "py_getitem data' ''messages'' = Inr (JArr msgs')"
    unfolding d' by (simp add: replace_item_map_of_same)
  with d d' s show ?thesis by blast
qed

lemma process_record_idem: "process_record data = Inr data' \<Longrightarrow> process_record data' = Inr data'"
  by (auto simp: process_record_def strip_rendered_idem strip_rendered_contains split: sum.splits if_splits)

lemma process_record_total:
  assumes "session_record data"
  shows "\<exists>data'. process_record data = Inr data'"
proof -
  from assms obtain kvs where d: "data = JObj kvs"
    by (cases data) (auto simp: session_record_def)
  show ?thesis
  proof (cases "map_of kvs ''messages''")
    case None
    then have "''messages'' \<notin> set (map fst kvs)"
      by (simp add: map_of_eq_None_iff)
    then show ?thesis by (simp add: d process_record_def)
  next
    case (Some msgs)
    with assms d obtain ms where ms: "msgs = JArr ms" "list_all is_mapping ms"
      by (cases msgs) (auto simp: session_record_def)
    then obtain ms' where "strip_loop ms = Inr ms'"
      using strip_loop_mappings by blast
    with Some ms map_of_in_keys[OF Some] show ?thesis
      by (simp add: d process_record_def strip_rendered_def strip_messages_def)
  qed
qed

lemma strip_loop_map:
  "strip_loop ms = Inr ms' \<Longrightarrow>
   ms' = map (\<lambda>m. case m of JObj e \<Rightarrow> JObj (remove_key ''rendered'' e) | _ \<Rightarrow> m) ms"
proof (induction ms arbitrary: ms')
  case Nil
  then show ?case by simp
next
  case (Cons m ms)
  then show ?case
    by (auto split: sum.splits dest: strip_msg_result)
qed

lemma remove_key_set: "(k, v) \<in> set (remove_key key kvs) \<longleftrightarrow> (k, v) \<in> set kvs \<and> k \<noteq> key"
  by (auto simp: remove_key_def)

section \<open>Properties of the run over the directory\<close>

subsection \<open>Reading and writing files\<close>

lemma write_file_names: "map fst (write_file path c d) = map fst d"
  by (induction d) auto

lemma write_file_map_of_other: "q \<noteq> path \<Longrightarrow> map_of (write_file path c d) q = map_of d q"
  by (induction d) auto

lemma write_file_map_of_same:
  "path \<in> set (map fst d) \<Longrightarrow> map_of (write_file path c d) path = Some (File c)"
  by (induction d) auto

lemma write_file_same: "map_of d path = Some (File c) \<Longrightarrow> write_file path c d = d"
  by (induction d) (auto split: if_splits)

lemma open_read_Inr: "open_read d path = Inr c \<longleftrightarrow> map_of d path = Some (File c)"
  by (auto simp: open_read_def split: option.splits node.splits)

lemma open_read_cong: "map_of d path = map_of d' path \<Longrightarrow> open_read d path = open_read d' path"
  by (simp add: open_read_def)

lemma open_read_member:
  "distinct (map fst d) \<Longrightarrow> (path, File c) \<in> set d \<Longrightarrow> open_read d path = Inr c"
  by (simp add: open_read_Inr)

lemma open_read_write_other:
  "q \<noteq> path \<Longrightarrow> open_read (write_file path c d) q = open_read d q"
  by (simp add: open_read_def write_file_map_of_other)

lemma open_read_write_same:
  assumes "open_read d path = Inr c0"
  shows "open_read (write_file path c d) path = Inr c"
proof -
  from assms have "map_of d path = Some (File c0)" by (simp add: open_read_Inr)
  then have "path \<in> set (map fst d)" by (rule map_of_in_keys)
  then show ?thesis by (simp add: open_read_Inr write_file_map_of_same)
qed

subsection \<open>One file\<close>

text \<open>The three ways in which lines 12 to 19 can end.\<close>

lemma process_file_cases:
  assumes "process_file load dump path d = (d', ev, r)"
  obtains
    (raised) e where "r = Some e" "d' = d" "ev = [] \<or> ev = [Read path]"
  | (skipped) c data where "r = None" "d' = d" "ev = [Read path]"
      "open_read d path = Inr c" "load c = Inr data" "py_contains ''messages'' data = Inr False"
  | (written) c data data' where "r = None" "d' = write_file path (dump data' 2) d"
      "ev = [Read path, Write path]"
      "open_read d path = Inr c" "load c = Inr data" "py_contains ''messages'' data = Inr True"
      "strip_rendered data = Inr data'"
  using assms
  by (auto simp: process_file_def split: sum.splits if_splits)

lemma process_file_skipped:
  "open_read d path = Inr c \<Longrightarrow> load c = Inr data \<Longrightarrow> py_contains ''messages'' data = Inr False \<Longrightarrow>
   process_file load dump path d = (d, [Read path], None)"
  by (simp add: process_file_def)

lemma process_file_written:
  "open_read d path = Inr c \<Longrightarrow> load c = Inr data \<Longrightarrow> py_contains ''messages'' data = Inr True \<Longrightarrow>
   strip_rendered data = Inr data' \<Longrightarrow>
   process_file load dump path d = (write_file path (dump data' 2) d, [Read path, Write path], None)"
  by (simp add: process_file_def)

lemma process_file_names:
  "process_file load dump path d = (d', ev, r) \<Longrightarrow> map fst d' = map fst d"
  by (erule process_file_cases) (auto simp: write_file_names)

lemma process_file_other:
  "process_file load dump path d = (d', ev, r) \<Longrightarrow> q \<noteq> path \<Longrightarrow> open_read d' q = open_read d q"
  by (erule process_file_cases) (auto simp: open_read_write_other)

lemma process_file_events:
  "process_file load dump path d = (d', ev, r) \<Longrightarrow> set ev \<subseteq> {Read path, Write path}"
  by (erule process_file_cases) auto

text \<open>Lines 12 to 19 look at the directory through the one path only.\<close>

lemma process_file_raised_cong:
  assumes "process_file load dump path d = (d', ev, Some e)"
    and "open_read d2 path = open_read d path"
  shows "process_file load dump path d2 = (d2, ev, Some e)"
  using assms
  by (auto simp: process_file_def split: sum.splits if_splits)

subsection \<open>The loop over the files\<close>

lemma for_files_names:
  "for_files load dump paths d = (d', ev, r) \<Longrightarrow> map fst d' = map fst d"
proof (induction paths arbitrary: d d' ev r)
  case Nil
  then show ?case by simp
next
  case (Cons path paths)
  obtain d1 ev1 r1 where p: "process_file load dump path d = (d1, ev1, r1)"
    by (cases "process_file load dump path d") auto
  show ?case
  proof (cases r1)
    case None
    with Cons.prems p obtain ev2 where "for_files load dump paths d1 = (d', ev2, r)"
      by (auto split: prod.splits)
    from Cons.IH[OF this] process_file_names[OF p] show ?thesis by simp
  next
    case (Some e)
    with Cons.prems p process_file_names[OF p] show ?thesis by auto
  qed
qed

lemma for_files_other:
  "for_files load dump paths d = (d', ev, r) \<Longrightarrow> q \<notin> set paths \<Longrightarrow> open_read d' q = open_read d q"
proof (induction paths arbitrary: d d' ev r)
  case Nil
  then show ?case by simp
next
  case (Cons path paths)
  obtain d1 ev1 r1 where p: "process_file load dump path d = (d1, ev1, r1)"
    by (cases "process_file load dump path d") auto
  from Cons.prems(2) have q: "q \<noteq> path" "q \<notin> set paths" by auto
  show ?case
  proof (cases r1)
    case None
    with Cons.prems p obtain ev2 where "for_files load dump paths d1 = (d', ev2, r)"
      by (auto split: prod.splits)
    from Cons.IH[OF this q(2)] process_file_other[OF p q(1)] show ?thesis by simp
  next
    case (Some e)
    with Cons.prems p process_file_other[OF p q(1)] show ?thesis by auto
  qed
qed

lemma for_files_events:
  "for_files load dump paths d = (d', ev, r) \<Longrightarrow> set ev \<subseteq> Read ` set paths \<union> Write ` set paths"
proof (induction paths arbitrary: d d' ev r)
  case Nil
  then show ?case by simp
next
  case (Cons path paths)
  obtain d1 ev1 r1 where p: "process_file load dump path d = (d1, ev1, r1)"
    by (cases "process_file load dump path d") auto
  show ?case
  proof (cases r1)
    case None
    with Cons.prems p obtain ev2 where f: "for_files load dump paths d1 = (d', ev2, r)"
      and ev: "ev = ev1 @ ev2"
      by (auto split: prod.splits)
    from Cons.IH[OF f] process_file_events[OF p] show ?thesis unfolding ev by auto
  next
    case (Some e)
    with Cons.prems p process_file_events[OF p] show ?thesis by auto
  qed
qed

text \<open>A run of the loop that ends without an exception has opened and loaded every file
  of the list; a file is written exactly when its record has the key.\<close>

lemma for_files_done:
  assumes "for_files load dump paths d = (d', ev, None)"
    and "distinct paths"
    and "path \<in> set paths"
  shows "\<exists>c data. open_read d path = Inr c \<and> load c = Inr data \<and>
           (py_contains ''messages'' data = Inr False \<and> open_read d' path = Inr c \<and>
              Write path \<notin> set ev
            \<or> py_contains ''messages'' data = Inr True \<and> Write path \<in> set ev \<and>
              (\<exists>data'. strip_rendered data = Inr data' \<and> open_read d' path = Inr (dump data' 2)))"
  using assms
proof (induction paths arbitrary: d ev)
  case Nil
  then show ?case by simp
next
  case (Cons p paths)
  obtain d1 ev1 r1 where pf: "process_file load dump p d = (d1, ev1, r1)"
    by (cases "process_file load dump p d") auto
  with Cons.prems(1) have r1: "r1 = None"
    by (cases r1) auto
  with Cons.prems(1) pf obtain ev2 where f: "for_files load dump paths d1 = (d', ev2, None)"
    and ev: "ev = ev1 @ ev2"
    by (auto split: prod.splits)
  from Cons.prems(2) have dist: "p \<notin> set paths" "distinct paths" by auto
  show ?case
  proof (cases "path = p")
    case True
    from for_files_other[OF f dist(1)] have same: "open_read d' p = open_read d1 p" .
    from for_files_events[OF f] dist(1) have nw: "Write p \<notin> set ev2" by auto
    from pf r1 show ?thesis
    proof (cases rule: process_file_cases)
      case (skipped c data)
      with same nw show ?thesis unfolding True ev by auto
    next
      case (written c data data')
      from open_read_write_same[OF written(4)] written(2) same
      have "open_read d' p = Inr (dump data' 2)" by simp
      with written show ?thesis unfolding True ev by auto
    qed simp
  next
    case False
    with Cons.prems(3) have mem: "path \<in> set paths" by simp
    from process_file_events[OF pf] False have nw: "Write path \<notin> set ev1" by auto
    from process_file_other[OF pf False] have "open_read d1 path = open_read d path" .
    with Cons.IH[OF f dist(2) mem] nw show ?thesis unfolding ev by auto
  qed
qed

subsection \<open>Every write follows a read of the same path\<close>

lemma read_before_write_append:
  assumes "read_before_write xs" "read_before_write ys"
  shows "read_before_write (xs @ ys)"
  unfolding read_before_write_def
proof (intro allI impI)
  fix i p
  assume i: "i < length (xs @ ys)" and w: "(xs @ ys) ! i = Write p"
  show "\<exists>j < i. (xs @ ys) ! j = Read p"
  proof (cases "i < length xs")
    case True
    with w assms(1) obtain j where "j < i" "xs ! j = Read p"
      unfolding read_before_write_def by (auto simp: nth_append)
    with True show ?thesis by (auto simp: nth_append intro!: exI[of _ j])
  next
    case False
    with i have "i - length xs < length ys" by simp
    moreover from w False have "ys ! (i - length xs) = Write p" by (simp add: nth_append)
    ultimately obtain j where j: "j < i - length xs" "ys ! j = Read p"
      using assms(2) unfolding read_before_write_def by blast
    with False show ?thesis
      by (auto simp: nth_append intro!: exI[of _ "length xs + j"])
  qed
qed

lemma process_file_read_before_write:
  "process_file load dump path d = (d', ev, r) \<Longrightarrow> read_before_write ev"
  by (erule process_file_cases) (auto simp: read_before_write_def less_Suc_eq)

lemma for_files_read_before_write:
  "for_files load dump paths d = (d', ev, r) \<Longrightarrow> read_before_write ev"
proof (induction paths arbitrary: d d' ev r)
  case Nil
  then show ?case by (simp add: read_before_write_def)
next
  case (Cons path paths)
  obtain d1 ev1 r1 where p: "process_file load dump path d = (d1, ev1, r1)"
    by (cases "process_file load dump path d") auto
  show ?case
  proof (cases r1)
    case None
    with Cons.prems p obtain ev2 where f: "for_files load dump paths d1 = (d', ev2, r)"
      and ev: "ev = ev1 @ ev2"
      by (auto split: prod.splits)
    from Cons.IH[OF f] process_file_read_before_write[OF p] show ?thesis
      unfolding ev by (rule read_before_write_append[rotated])
  next
    case (Some e)
    with Cons.prems p process_file_read_before_write[OF p] show ?thesis by auto
  qed
qed

subsection \<open>The script keeps Python values Python values\<close>

lemma remove_key_py_value: "py_value (JObj kvs) \<Longrightarrow> py_value (JObj (remove_key key kvs))"
  by (auto simp: remove_key_def distinct_map_filter)

lemma strip_msg_py_value: "strip_msg m = Inr m' \<Longrightarrow> py_value m \<Longrightarrow> py_value m'"
  using remove_key_py_value
  by (cases m) (auto simp: strip_msg_def split: if_splits)

lemma strip_loop_py_value:
  "strip_loop ms = Inr ms' \<Longrightarrow> \<forall>m \<in> set ms. py_value m \<Longrightarrow> \<forall>m \<in> set ms'. py_value m"
  by (induction ms arbitrary: ms') (auto split: sum.splits dest: strip_msg_py_value)

lemma strip_messages_py_value:
  "strip_messages msgs = Inr msgs' \<Longrightarrow> py_value msgs \<Longrightarrow> py_value msgs'"
  using strip_loop_py_value
  by (cases msgs) (auto simp: strip_messages_def split: sum.splits)

lemma replace_item_values:
  "(k, x) \<in> set (replace_item key v kvs) \<Longrightarrow> x = v \<or> (k, x) \<in> set kvs"
  by (induction kvs) (auto split: if_splits)

lemma map_of_value: "map_of kvs key = Some v \<Longrightarrow> v \<in> snd ` set kvs"
  by (induction kvs) (auto split: if_splits)

lemma strip_rendered_py_value:
  assumes "strip_rendered data = Inr data'" "py_value data"
  shows "py_value data'"
proof -
  from assms(1) obtain kvs msgs msgs' where d: "data = JObj kvs"
    and m: "map_of kvs ''messages'' = Some msgs"
    and s: "strip_messages msgs = Inr msgs'"
    and d': "data' = JObj (replace_item ''messages'' msgs' kvs)"
    unfolding strip_rendered_mapping by blast
  from assms(2) d map_of_value[OF m] have "py_value msgs" by auto
  with s have "py_value msgs'" by (rule strip_messages_py_value)
  with assms(2) show ?thesis
    unfolding d d' by (auto simp: replace_item_keys dest!: replace_item_values)
qed

subsection \<open>Running lines 12 to 19 again on a file they have left\<close>

lemma process_file_again:
  assumes codec: "codec_roundtrip load dump"
    and pf: "process_file load dump path d = (d', ev, r)"
    and same: "open_read d2 path = open_read d' path"
  shows "process_file load dump path d2 = (d2, ev, r)"
  using pf
proof (cases rule: process_file_cases)
  case (raised e)
  with pf same show ?thesis by (auto intro: process_file_raised_cong)
next
  case (skipped c data)
  with same show ?thesis by (simp add: process_file_skipped)
next
  case (written c data data')
  from codec written(5) have "py_value data" by (auto simp: codec_roundtrip_def)
  with written(7) have "py_value data'" by (rule strip_rendered_py_value)
  with codec have l: "load (dump data' 2) = Inr data'" by (auto simp: codec_roundtrip_def)
  from open_read_write_same[OF written(4)] written(2) same
  have o: "open_read d2 path = Inr (dump data' 2)" by simp
  then have "write_file path (dump data' 2) d2 = d2"
    by (simp add: open_read_Inr write_file_same)
  moreover from written(6,7) have "py_contains ''messages'' data' = Inr True"
    by (simp add: strip_rendered_contains)
  moreover from written(7) have "strip_rendered data' = Inr data'" by (rule strip_rendered_idem)
  ultimately show ?thesis
    using process_file_written[where load = load and dump = dump, OF o l] written(1,3) by simp
qed

lemma for_files_again:
  assumes "codec_roundtrip load dump"
    and "distinct paths"
    and "for_files load dump paths d = (d', ev, r)"
  shows "for_files load dump paths d' = (d', ev, r)"
  using assms(2,3)
proof (induction paths arbitrary: d ev)
  case Nil
  then show ?case by simp
next
  case (Cons p paths)
  obtain d1 ev1 r1 where pf: "process_file load dump p d = (d1, ev1, r1)"
    by (cases "process_file load dump p d") auto
  from Cons.prems(1) have dist: "p \<notin> set paths" "distinct paths" by auto
  show ?case
  proof (cases r1)
    case (Some e)
    with Cons.prems(2) pf have res: "d' = d1" "ev = ev1" "r = Some e" by auto
    from process_file_again[OF assms(1) pf refl] show ?thesis
      unfolding res Some by simp
  next
    case None
    with Cons.prems(2) pf obtain ev2 where f: "for_files load dump paths d1 = (d', ev2, r)"
      and ev: "ev = ev1 @ ev2"
      by (auto split: prod.splits)
    from process_file_again[OF assms(1) pf for_files_other[OF f dist(1)]] None
    have "process_file load dump p d' = (d', ev1, None)" by simp
    with Cons.IH[OF dist(2) f] show ?thesis unfolding ev by simp
  qed
qed

lemma glob_json_names: "map fst d' = map fst d \<Longrightarrow> glob_json d' = glob_json d"
  by (simp add: glob_json_def)

lemma glob_json_distinct: "distinct (map fst d) \<Longrightarrow> distinct (glob_json d)"
  by (simp add: glob_json_def)

subsection \<open>Directories on which the script does not raise\<close>

lemma process_file_session_record:
  assumes "open_read d path = Inr c" "load c = Inr data" "session_record data"
  shows "\<exists>d' ev. process_file load dump path d = (d', ev, None)"
proof -
  from process_record_total[OF assms(3)] obtain data' where p: "process_record data = Inr data'"
    by blast
  from assms(3) obtain kvs where "data = JObj kvs"
    by (cases data) (auto simp: session_record_def)
  with p assms(1,2) show ?thesis
    by (auto simp: process_file_def process_record_def split: if_splits)
qed

lemma for_files_total:
  assumes "distinct paths"
    and "\<forall>path \<in> set paths. \<exists>c data. open_read d path = Inr c \<and> load c = Inr data \<and> session_record data"
  shows "\<exists>d' ev. for_files load dump paths d = (d', ev, None)"
  using assms
proof (induction paths arbitrary: d)
  case Nil
  then show ?case by simp
next
  case (Cons p paths)
  from Cons.prems(2) obtain c data where "open_read d p = Inr c" "load c = Inr data" "session_record data"
    by auto
  from process_file_session_record[where load = load and dump = dump, OF this] obtain d1 ev1
    where pf: "process_file load dump p d = (d1, ev1, None)" by blast
  from Cons.prems(1) have dist: "p \<notin> set paths" "distinct paths" by auto
  have "\<forall>path \<in> set paths. \<exists>c data. open_read d1 path = Inr c \<and> load c = Inr data \<and> session_record data"
  proof
    fix path assume m: "path \<in> set paths"
    with dist(1) have "path \<noteq> p" by auto
    from process_file_other[OF pf this] Cons.prems(2) m
    show "\<exists>c data. open_read d1 path = Inr c \<and> load c = Inr data \<and> session_record data" by simp
  qed
  from Cons.IH[OF dist(2) this] obtain d' ev2 where "for_files load dump paths d1 = (d', ev2, None)"
    by blast
  with pf show ?case by simp
qed

lemma clear_cache_total:
  assumes "distinct (map fst d)"
    and "\<forall>(path, node) \<in> set d. endswith path ''.json'' \<longrightarrow>
           (\<exists>c data. node = File c \<and> load c = Inr data \<and> session_record data)"
  shows "raised (clear_cache load dump d) = None \<and> stdout (clear_cache load dump d) = [cache_cleared]"
proof -
  have "\<forall>path \<in> set (glob_json d). \<exists>c data. open_read d path = Inr c \<and> load c = Inr data \<and> session_record data"
  proof
    fix path assume "path \<in> set (glob_json d)"
    then obtain node where "(path, node) \<in> set d" "endswith path ''.json''"
      by (auto simp: glob_json_def)
    with assms(2) obtain c data where "(path, File c) \<in> set d" "load c = Inr data" "session_record data"
      by fastforce
    with open_read_member[OF assms(1) this(1)]
    show "\<exists>c data. open_read d path = Inr c \<and> load c = Inr data \<and> session_record data" by blast
  qed
  from for_files_total[where dump = dump, OF glob_json_distinct[OF assms(1)] this]
  obtain d' ev where "for_files load dump (glob_json d) d = (d', ev, None)" by blast
  then show ?thesis by (simp add: clear_cache_def)
qed

subsection \<open>The whole script\<close>

lemma clear_cache_run:
  obtains d' ev r where "for_files load dump (glob_json d) d = (d', ev, r)"
    "files (clear_cache load dump d) = d'" "events (clear_cache load dump d) = ev"
    "raised (clear_cache load dump d) = r"
proof -
  obtain d' ev r where f: "for_files load dump (glob_json d) d = (d', ev, r)"
    by (cases "for_files load dump (glob_json d) d") auto
  then have "files (clear_cache load dump d) = d'" "events (clear_cache load dump d) = ev"
    "raised (clear_cache load dump d) = r"
    by (cases r; simp add: clear_cache_def)+
  with f that show ?thesis by blast
qed

lemma glob_json_member:
  "(path, node) \<in> set d \<Longrightarrow> endswith path ''.json'' \<Longrightarrow> path \<in> set (glob_json d)"
  by (force simp: glob_json_def)

lemma clear_cache_done:
  assumes "raised (clear_cache load dump d) = None"
    and "distinct (map fst d)"
    and "(path, File c) \<in> set d"
    and "endswith path ''.json''"
    and "load c = Inr data"
  shows "py_contains ''messages'' data = Inr False \<and>
           open_read (files (clear_cache load dump d)) path = Inr c \<and>
           Write path \<notin> set (events (clear_cache load dump d))
         \<or> py_contains ''messages'' data = Inr True \<and>
           Write path \<in> set (events (clear_cache load dump d)) \<and>
           (\<exists>data'. strip_rendered data = Inr data' \<and>
              open_read (files (clear_cache load dump d)) path = Inr (dump data' 2))"
proof -
  obtain d' ev r where f: "for_files load dump (glob_json d) d = (d', ev, r)"
    and o: "files (clear_cache load dump d) = d'" "events (clear_cache load dump d) = ev"
    "raised (clear_cache load dump d) = r"
    by (rule clear_cache_run)
  from assms(1) o(3) f have f': "for_files load dump (glob_json d) d = (d', ev, None)" by simp
  from open_read_member[OF assms(2,3)] have c: "open_read d path = Inr c" .
  from for_files_done[OF f' glob_json_distinct[OF assms(2)] glob_json_member[OF assms(3,4)]] c assms(5)
  show ?thesis unfolding o by auto
qed

section \<open>The examples, evaluated\<close>

lemma process_ex_nested: "process_record ex_nested = Inr ex_nested_stripped"
  by (simp add: ex_nested_def ex_nested_stripped_def process_record_def strip_rendered_def
      strip_messages_def strip_msg_def remove_key_def)

lemma json_codec_roundtrip: "codec_roundtrip json_load json_dump"
proof -
  have "py_value data" if "json_load c = Inr data" for c data
    using that by (cases c) (auto split: if_splits)
  then show ?thesis by (auto simp: codec_roundtrip_def json_dump_def)
qed

lemma glob_ex_dir: "glob_json ex_dir = [''a.json'', ''b.json'']"
  by (simp add: glob_json_def ex_dir_def endswith_def)

lemma process_ex_record:
  "process_record ex_record = Inr (JObj [(''messages'', JArr [JObj [(''text'', JStr ''hi'')]])])"
  by (simp add: ex_record_def ex_entry_def process_record_def strip_rendered_def
      strip_messages_def strip_msg_def remove_key_def)

lemma strip_ex_record:
  "strip_rendered ex_record = Inr (JObj [(''messages'', JArr [JObj [(''text'', JStr ''hi'')]])])"
  by (simp add: ex_record_def ex_entry_def strip_rendered_def
      strip_messages_def strip_msg_def remove_key_def)

lemma load_ex_a: "json_load ex_a_text = Inr ex_record"
  by (simp add: ex_a_text_def ex_record_def ex_entry_def)

lemma load_ex_b: "json_load ex_b_text = Inr ex_plain"
  by (simp add: ex_b_text_def ex_plain_def)

lemma clear_cache_ex_dir:
  "clear_cache json_load json_dump ex_dir =
     \<lparr>files = ex_dir_after, events = [Read ''a.json'', Write ''a.json'', Read ''b.json''],
      stdout = [cache_cleared], raised = None\<rparr>"
proof -
  have oa: "open_read ex_dir ''a.json'' = Inr ex_a_text"
    by (simp add: open_read_def ex_dir_def)
  have ca: "py_contains ''messages'' ex_record = Inr True"
    by (simp add: ex_record_def)
  have wa: "write_file ''a.json''
              (json_dump (JObj [(''messages'', JArr [JObj [(''text'', JStr ''hi'')]])]) 2) ex_dir =
            ex_dir_after"
    by (simp add: ex_dir_def ex_dir_after_def json_dump_def)
  have a: "process_file json_load json_dump ''a.json'' ex_dir =
             (ex_dir_after, [Read ''a.json'', Write ''a.json''], None)"
    using process_file_written[where load = json_load and dump = json_dump,
        OF oa load_ex_a ca strip_ex_record]
    by (simp add: wa)
  have ob: "open_read ex_dir_after ''b.json'' = Inr ex_b_text"
    by (simp add: open_read_def ex_dir_after_def)
  have cb: "py_contains ''messages'' ex_plain = Inr False"
    by (simp add: ex_plain_def)
  have b: "process_file json_load json_dump ''b.json'' ex_dir_after =
             (ex_dir_after, [Read ''b.json''], None)"
    by (rule process_file_skipped[where load = json_load, OF ob load_ex_b cb])
  show ?thesis
    by (simp add: clear_cache_def glob_ex_dir a b)
qed

lemma strip_ex_clean: "strip_rendered ex_clean = Inr ex_clean"
  by (simp add: ex_clean_def strip_rendered_def strip_messages_def strip_msg_def)

lemma load_ex_c: "json_load ex_c_text = Inr ex_clean"
  by (simp add: ex_c_text_def ex_clean_def)

lemma clear_cache_ex_clean_dir:
  "clear_cache json_load json_dump ex_clean_dir =
     \<lparr>files = ex_clean_dir_after, events = [Read ''c.json'', Write ''c.json'', Read ''b.json''],
      stdout = [cache_cleared], raised = None\<rparr>"
proof -
  have oc: "open_read ex_clean_dir ''c.json'' = Inr ex_c_text"
    by (simp add: open_read_def ex_clean_dir_def)
  have cc: "py_contains ''messages'' ex_clean = Inr True"
    by (simp add: ex_clean_def)
  have wc: "write_file ''c.json'' (json_dump ex_clean 2) ex_clean_dir = ex_clean_dir_after"
    by (simp add: ex_clean_dir_def ex_clean_dir_after_def json_dump_def)
  have c: "process_file json_load json_dump ''c.json'' ex_clean_dir =
             (ex_clean_dir_after, [Read ''c.json'', Write ''c.json''], None)"
    using process_file_written[where load = json_load and dump = json_dump,
        OF oc load_ex_c cc strip_ex_clean]
    by (simp add: wc)
  have ob: "open_read ex_clean_dir_after ''b.json'' = Inr ex_b_text"
    by (simp add: open_read_def ex_clean_dir_after_def)
  have cb: "py_contains ''messages'' ex_plain = Inr False"
    by (simp add: ex_plain_def)
  have b: "process_file json_load json_dump ''b.json'' ex_clean_dir_after =
             (ex_clean_dir_after, [Read ''b.json''], None)"
    by (rule process_file_skipped[where load = json_load, OF ob load_ex_b cb])
  have g: "glob_json ex_clean_dir = [''c.json'', ''b.json'']"
    by (simp add: glob_json_def ex_clean_dir_def endswith_def)
  show ?thesis
    by (simp add: clear_cache_def g c b)
qed

section \<open>The claims about one record\<close>

text \<open>
  Claim C1. Take any record that the script processes without an exception and whose
  \<^verbatim>\<open>messages\<close> value is a list, and any element of that list that is a mapping with a
  \<^verbatim>\<open>rendered\<close> field. Afterwards the list has the same length, the element at the same
  position is a mapping without a \<^verbatim>\<open>rendered\<close> field, and every other field of it has
  the value it had before: the element is the old one with that one item removed.
  By \<open>process_record_total\<close> every session record of the data model is processed
  without an exception.
\<close>

theorem rendered_field_removed:
  assumes "process_record data = Inr data'"
    and "py_getitem data ''messages'' = Inr (JArr msgs)"
    and "i < length msgs"
    and "msgs ! i = JObj entry"
    and "''rendered'' \<in> set (map fst entry)"
  shows "\<exists>msgs' entry'.
           py_getitem data' ''messages'' = Inr (JArr msgs') \<and> length msgs' = length msgs \<and>
           msgs' ! i = JObj entry' \<and> ''rendered'' \<notin> set (map fst entry') \<and>
           (\<forall>k. k \<noteq> ''rendered'' \<longrightarrow> map_of entry' k = map_of entry k) \<and>
           entry' = remove_key ''rendered'' entry"
proof -
  from process_record_list[OF assms(1,2)] obtain msgs'
    where g: "py_getitem data' ''messages'' = Inr (JArr msgs')"
      and s: "strip_loop msgs = Inr msgs'"
    by blast
  from strip_loop_nth[OF s assms(3)] assms(4)
  have "msgs' ! i = JObj (remove_key ''rendered'' entry)"
    by (simp add: strip_msg_mapping)
  with g strip_loop_length[OF s] remove_key_keys[of "''rendered''" entry] show ?thesis
    by (simp add: remove_key_map_of)
qed

theorem rendered_field_removed_witness:
  "process_record ex_record = Inr (JObj [(''messages'', JArr [JObj [(''text'', JStr ''hi'')]])]) \<and>
   py_getitem ex_record ''messages'' = Inr (JArr [JObj ex_entry]) \<and>
   (0::nat) < length [JObj ex_entry] \<and>
   [JObj ex_entry] ! 0 = JObj ex_entry \<and>
   ''rendered'' \<in> set (map fst ex_entry) \<and>
   (\<exists>msgs' entry'.
      py_getitem (JObj [(''messages'', JArr [JObj [(''text'', JStr ''hi'')]])]) ''messages'' = Inr (JArr msgs') \<and>
      length msgs' = length [JObj ex_entry] \<and> msgs' ! 0 = JObj entry' \<and>
      ''rendered'' \<notin> set (map fst entry') \<and> entry' = [(''text'', JStr ''hi'')])"
proof -
  have p: "process_record ex_record = Inr (JObj [(''messages'', JArr [JObj [(''text'', JStr ''hi'')]])])"
    by (simp add: ex_record_def ex_entry_def process_record_def strip_rendered_def
        strip_messages_def strip_msg_def remove_key_def)
  have g: "py_getitem ex_record ''messages'' = Inr (JArr [JObj ex_entry])"
    by (simp add: ex_record_def)
  have i: "(0::nat) < length [JObj ex_entry]" by simp
  have n: "[JObj ex_entry] ! 0 = JObj ex_entry" by simp
  have r: "''rendered'' \<in> set (map fst ex_entry)" by (simp add: ex_entry_def)
  have e: "remove_key ''rendered'' ex_entry = [(''text'', JStr ''hi'')]"
    by (simp add: remove_key_def ex_entry_def)
  from rendered_field_removed[OF p g i n r] p g i n r show ?thesis
    unfolding e by blast
qed

text \<open>
  Claim C3. A record without a \<^verbatim>\<open>messages\<close> field is the same record after lines 14 to
  17, and lines 12 to 19 leave its file, and the whole directory, as they were: the file
  is read and not written.
\<close>

theorem record_without_messages_unchanged:
  assumes "open_read d path = Inr c"
    and "load c = Inr data"
    and "py_contains ''messages'' data = Inr False"
  shows "process_record data = Inr data \<and>
         process_file load dump path d = (d, [Read path], None)"
  using assms by (simp add: process_record_def process_file_skipped)

theorem record_without_messages_unchanged_witness:
  "open_read ex_dir ''b.json'' = Inr ex_b_text \<and>
   json_load ex_b_text = Inr ex_plain \<and>
   py_contains ''messages'' ex_plain = Inr False \<and>
   process_record ex_plain = Inr ex_plain \<and>
   process_file json_load json_dump ''b.json'' ex_dir = (ex_dir, [Read ''b.json''], None)"
proof -
  have o: "open_read ex_dir ''b.json'' = Inr ex_b_text"
    by (simp add: open_read_def ex_dir_def)
  have c: "py_contains ''messages'' ex_plain = Inr False"
    by (simp add: ex_plain_def)
  from record_without_messages_unchanged[where load = json_load, OF o load_ex_b c] o load_ex_b c
  show ?thesis by blast
qed

text \<open>
  Claim C5. When the script processes a record whose \<^verbatim>\<open>messages\<close> value is a list, the
  list afterwards is the old list with, position by position, the \<^verbatim>\<open>rendered\<close> item
  removed from each element that is a mapping and every other element as it was: nothing
  is added, removed or reordered.
\<close>

theorem messages_order_preserved:
  assumes "process_record data = Inr data'"
    and "py_getitem data ''messages'' = Inr (JArr msgs)"
  shows "\<exists>msgs'.
           py_getitem data' ''messages'' = Inr (JArr msgs') \<and>
           msgs' = map (\<lambda>m. case m of JObj e \<Rightarrow> JObj (remove_key ''rendered'' e) | _ \<Rightarrow> m) msgs"
  using process_record_list[OF assms] strip_loop_map by blast

theorem messages_order_preserved_witness:
  "process_record ex_nested = Inr ex_nested_stripped \<and>
   py_getitem ex_nested ''messages'' =
     Inr (JArr [JObj [(''text'', JStr ''a'')],
                JObj [(''rendered'', JStr ''<p>b</p>''),
                      (''meta'', JObj [(''rendered'', JStr ''deep'')])]]) \<and>
   py_getitem ex_nested_stripped ''messages'' =
     Inr (JArr [JObj [(''text'', JStr ''a'')],
                JObj [(''meta'', JObj [(''rendered'', JStr ''deep'')])]])"
proof -
  have g: "py_getitem ex_nested ''messages'' =
     Inr (JArr [JObj [(''text'', JStr ''a'')],
                JObj [(''rendered'', JStr ''<p>b</p>''),
                      (''meta'', JObj [(''rendered'', JStr ''deep'')])]])"
    by (simp add: ex_nested_def)
  from messages_order_preserved[OF process_ex_nested g] process_ex_nested g show ?thesis
    by (auto simp: remove_key_def)
qed

text \<open>
  Claim C6. An element of the \<^verbatim>\<open>messages\<close> list in which \<^verbatim>\<open>'rendered' in msg\<close> is false,
  in particular a mapping without a \<^verbatim>\<open>rendered\<close> field, is the same element, at the same
  position, after the record has been processed.
\<close>

theorem entry_without_rendered_unchanged:
  assumes "process_record data = Inr data'"
    and "py_getitem data ''messages'' = Inr (JArr msgs)"
    and "i < length msgs"
    and "py_contains ''rendered'' (msgs ! i) = Inr False"
  shows "\<exists>msgs'.
           py_getitem data' ''messages'' = Inr (JArr msgs') \<and> length msgs' = length msgs \<and>
           msgs' ! i = msgs ! i"
proof -
  from process_record_list[OF assms(1,2)] obtain msgs'
    where g: "py_getitem data' ''messages'' = Inr (JArr msgs')"
      and s: "strip_loop msgs = Inr msgs'"
    by blast
  from strip_loop_nth[OF s assms(3)] assms(4) have "msgs' ! i = msgs ! i"
    by (simp add: strip_msg_def)
  with g strip_loop_length[OF s] show ?thesis by simp
qed

theorem entry_without_rendered_unchanged_witness:
  "process_record ex_nested = Inr ex_nested_stripped \<and>
   py_getitem ex_nested ''messages'' =
     Inr (JArr [JObj [(''text'', JStr ''a'')],
                JObj [(''rendered'', JStr ''<p>b</p>''),
                      (''meta'', JObj [(''rendered'', JStr ''deep'')])]]) \<and>
   (0::nat) < 2 \<and>
   py_contains ''rendered'' (JObj [(''text'', JStr ''a'')]) = Inr False \<and>
   (\<exists>msgs'. py_getitem ex_nested_stripped ''messages'' = Inr (JArr msgs') \<and> length msgs' = 2 \<and>
      msgs' ! 0 = JObj [(''text'', JStr ''a'')])"
proof -
  have g: "py_getitem ex_nested ''messages'' =
     Inr (JArr [JObj [(''text'', JStr ''a'')],
                JObj [(''rendered'', JStr ''<p>b</p>''),
                      (''meta'', JObj [(''rendered'', JStr ''deep'')])]])"
    by (simp add: ex_nested_def)
  from entry_without_rendered_unchanged[OF process_ex_nested g, of 0] process_ex_nested g
  show ?thesis by (auto simp: numeral_2_eq_2)
qed

text \<open>
  Claim C10. When the script processes a mapping, the result is a mapping with the same
  keys in the same order, and every item whose key is not \<^verbatim>\<open>messages\<close> is unchanged. When
  the \<^verbatim>\<open>messages\<close> value is a list, each element that is a mapping keeps exactly the
  items whose key is not \<^verbatim>\<open>rendered\<close>, each with the value it had: the script does not
  look inside the values, so a \<^verbatim>\<open>rendered\<close> key deeper inside one stays.
\<close>

theorem other_fields_preserved:
  assumes "process_record (JObj kvs) = Inr data'"
  shows "\<exists>kvs'.
           data' = JObj kvs' \<and> map fst kvs' = map fst kvs \<and>
           (\<forall>j < length kvs. fst (kvs ! j) \<noteq> ''messages'' \<longrightarrow> kvs' ! j = kvs ! j) \<and>
           (\<forall>msgs. map_of kvs ''messages'' = Some (JArr msgs) \<longrightarrow>
              (\<exists>msgs'. map_of kvs' ''messages'' = Some (JArr msgs') \<and> length msgs' = length msgs \<and>
                 (\<forall>i < length msgs. \<forall>e. msgs ! i = JObj e \<longrightarrow>
                    (\<exists>e'. msgs' ! i = JObj e' \<and>
                       (\<forall>k v. (k, v) \<in> set e' \<longleftrightarrow> (k, v) \<in> set e \<and> k \<noteq> ''rendered'')))))"
proof (cases "''messages'' \<in> set (map fst kvs)")
  case False
  with assms have "data' = JObj kvs" by (simp add: process_record_def)
  moreover from False have "map_of kvs ''messages'' = None"
    by (simp add: map_of_eq_None_iff)
  ultimately show ?thesis by simp
next
  case True
  with assms have "strip_rendered (JObj kvs) = Inr data'" by (simp add: process_record_def)
  then obtain v where d': "data' = JObj (replace_item ''messages'' v kvs)"
    unfolding strip_rendered_mapping by auto
  have lists: "\<exists>msgs'. map_of (replace_item ''messages'' v kvs) ''messages'' = Some (JArr msgs') \<and>
          length msgs' = length msgs \<and>
          (\<forall>i < length msgs. \<forall>e. msgs ! i = JObj e \<longrightarrow>
             (\<exists>e'. msgs' ! i = JObj e' \<and>
                (\<forall>k v. (k, v) \<in> set e' \<longleftrightarrow> (k, v) \<in> set e \<and> k \<noteq> ''rendered'')))"
    if m: "map_of kvs ''messages'' = Some (JArr msgs)" for msgs
  proof -
    from m have g: "py_getitem (JObj kvs) ''messages'' = Inr (JArr msgs)" by simp
    from process_record_list[OF assms g] d' obtain msgs'
      where g': "map_of (replace_item ''messages'' v kvs) ''messages'' = Some (JArr msgs')"
        and s: "strip_loop msgs = Inr msgs'"
      by (auto split: option.splits)
    have "\<exists>e'. msgs' ! i = JObj e' \<and>
                (\<forall>k v. (k, v) \<in> set e' \<longleftrightarrow> (k, v) \<in> set e \<and> k \<noteq> ''rendered'')"
      if "i < length msgs" "msgs ! i = JObj e" for i e
    proof -
      from strip_loop_nth[OF s that(1)] that(2)
      have "msgs' ! i = JObj (remove_key ''rendered'' e)"
        by (simp add: strip_msg_mapping)
      then show ?thesis by (simp add: remove_key_set)
    qed
    with g' strip_loop_length[OF s] show ?thesis by blast
  qed
  show ?thesis
    unfolding d' using lists
    by (simp add: replace_item_keys replace_item_nth)
qed

theorem other_fields_preserved_witness:
  "process_record ex_nested = Inr ex_nested_stripped \<and>
   (\<exists>kvs'. ex_nested_stripped = JObj kvs' \<and>
      map fst kvs' = [''rendered'', ''messages'', ''title''] \<and>
      kvs' ! 0 = (''rendered'', JStr ''top'') \<and> kvs' ! 2 = (''title'', JStr ''t'') \<and>
      map_of kvs' ''messages'' =
        Some (JArr [JObj [(''text'', JStr ''a'')],
                    JObj [(''meta'', JObj [(''rendered'', JStr ''deep'')])]]))"
  using other_fields_preserved[OF process_ex_nested[unfolded ex_nested_def]] process_ex_nested
  by (simp add: ex_nested_stripped_def)

section \<open>The claims about the directory\<close>

text \<open>
  Claim C2, as amended. Line 18 stands inside the \<^verbatim>\<open>if\<close> of line 14. In a run that ends
  without an exception, a \<^verbatim>\<open>*.json\<close> file whose record has a \<^verbatim>\<open>messages\<close> field holds
  afterwards, at the same path, the processed record as \<^verbatim>\<open>json.dump\<close> writes it with
  \<^verbatim>\<open>indent=2\<close>; a file whose record has no \<^verbatim>\<open>messages\<close> field keeps the contents it
  had.
\<close>

theorem persisted_when_messages:
  assumes "raised (clear_cache load dump d) = None"
    and "distinct (map fst d)"
    and "(path, File c) \<in> set d"
    and "endswith path ''.json''"
    and "load c = Inr data"
  shows "(py_contains ''messages'' data = Inr True \<longrightarrow>
            (\<exists>data'. process_record data = Inr data' \<and>
               open_read (files (clear_cache load dump d)) path = Inr (dump data' 2))) \<and>
         (py_contains ''messages'' data = Inr False \<longrightarrow>
            process_record data = Inr data \<and>
            open_read (files (clear_cache load dump d)) path = Inr c)"
  using clear_cache_done[OF assms]
  by (auto simp: process_record_def)

theorem persisted_when_messages_witness:
  "raised (clear_cache json_load json_dump ex_dir) = None \<and>
   distinct (map fst ex_dir) \<and>
   (''a.json'', File ex_a_text) \<in> set ex_dir \<and>
   endswith ''a.json'' ''.json'' \<and>
   json_load ex_a_text = Inr ex_record \<and>
   py_contains ''messages'' ex_record = Inr True \<and>
   (\<exists>data'. process_record ex_record = Inr data' \<and>
      open_read (files (clear_cache json_load json_dump ex_dir)) ''a.json'' = Inr (json_dump data' 2))"
proof -
  have r: "raised (clear_cache json_load json_dump ex_dir) = None"
    by (simp add: clear_cache_ex_dir)
  have d: "distinct (map fst ex_dir)" by (simp add: ex_dir_def)
  have m: "(''a.json'', File ex_a_text) \<in> set ex_dir" by (simp add: ex_dir_def)
  have e: "endswith ''a.json'' ''.json''" by (simp add: endswith_def)
  have c: "py_contains ''messages'' ex_record = Inr True" by (simp add: ex_record_def)
  from persisted_when_messages[OF r d m e load_ex_a] r d m e load_ex_a c
  show ?thesis by blast
qed

text \<open>
  Claim C2 as it is written fails on the second scenario of the specification: after a
  run without an exception, \<^verbatim>\<open>b.json\<close>, whose record has no \<^verbatim>\<open>messages\<close> field, still
  holds its one-line text, which is not what \<^verbatim>\<open>json.dump\<close> with \<^verbatim>\<open>indent=2\<close> writes
  for that record, and no write to it has happened.
\<close>

theorem persisted_every_file_counterexample:
  "(''b.json'', File ex_b_text) \<in> set ex_dir \<and>
   endswith ''b.json'' ''.json'' \<and>
   json_load ex_b_text = Inr ex_plain \<and>
   process_record ex_plain = Inr ex_plain \<and>
   raised (clear_cache json_load json_dump ex_dir) = None \<and>
   open_read (files (clear_cache json_load json_dump ex_dir)) ''b.json'' = Inr ex_b_text \<and>
   ex_b_text \<noteq> json_dump ex_plain 2 \<and>
   Write ''b.json'' \<notin> set (events (clear_cache json_load json_dump ex_dir))"
proof -
  have "process_record ex_plain = Inr ex_plain"
    by (simp add: process_record_def ex_plain_def)
  moreover have "open_read ex_dir_after ''b.json'' = Inr ex_b_text"
    by (simp add: open_read_def ex_dir_after_def)
  moreover have "ex_b_text \<noteq> json_dump ex_plain 2"
    by (simp add: ex_b_text_def json_dump_def)
  moreover have "(''b.json'', File ex_b_text) \<in> set ex_dir" by (simp add: ex_dir_def)
  moreover have "endswith ''b.json'' ''.json''" by (simp add: endswith_def)
  ultimately show ?thesis
    by (simp add: clear_cache_ex_dir load_ex_b)
qed

text \<open>
  Claim C4. When the codec round-trips and no two entries of the directory have the same
  name, a second run of the script leaves the files as the first run left them. This
  holds too when the first run ends with an exception: the second run stops at the same
  file.
\<close>

theorem run_twice_same_files:
  assumes "codec_roundtrip load dump"
    and "distinct (map fst d)"
  shows "files (clear_cache load dump (files (clear_cache load dump d))) =
         files (clear_cache load dump d)"
proof -
  obtain d' ev r where f: "for_files load dump (glob_json d) d = (d', ev, r)"
    and once: "files (clear_cache load dump d) = d'"
    by (rule clear_cache_run)
  from for_files_names[OF f] have g: "glob_json d' = glob_json d"
    by (rule glob_json_names)
  from for_files_again[OF assms(1) glob_json_distinct[OF assms(2)] f]
  have "for_files load dump (glob_json d') d' = (d', ev, r)"
    unfolding g .
  then have "files (clear_cache load dump d') = d'"
    by (cases r) (simp_all add: clear_cache_def)
  then show ?thesis
    unfolding once .
qed

theorem run_twice_same_files_witness:
  "codec_roundtrip json_load json_dump \<and>
   distinct (map fst ex_dir) \<and>
   files (clear_cache json_load json_dump ex_dir) = ex_dir_after \<and>
   files (clear_cache json_load json_dump ex_dir_after) = ex_dir_after"
proof -
  have d: "distinct (map fst ex_dir)" by (simp add: ex_dir_def)
  from run_twice_same_files[OF json_codec_roundtrip d] json_codec_roundtrip d
  show ?thesis by (simp add: clear_cache_ex_dir)
qed

text \<open>
  Claim C7. When no name in the directory ends in \<^verbatim>\<open>.json\<close>, the script reads and writes
  no file, leaves the directory as it is, raises nothing and prints its one line.
\<close>

theorem empty_directory_untouched:
  assumes "glob_json d = []"
  shows "clear_cache load dump d =
           \<lparr>files = d, events = [], stdout = [cache_cleared], raised = None\<rparr>"
  using assms by (simp add: clear_cache_def)

theorem empty_directory_untouched_witness:
  "glob_json ex_other_dir = [] \<and>
   clear_cache json_load json_dump ex_other_dir =
     \<lparr>files = ex_other_dir, events = [], stdout = [cache_cleared], raised = None\<rparr> \<and>
   glob_json ([] :: file_text directory) = [] \<and>
   clear_cache json_load json_dump [] =
     \<lparr>files = [], events = [], stdout = [cache_cleared], raised = None\<rparr>"
proof -
  have g: "glob_json ex_other_dir = []"
    by (simp add: glob_json_def ex_other_dir_def endswith_def)
  have n: "glob_json ([] :: file_text directory) = []"
    by (simp add: glob_json_def)
  from empty_directory_untouched[OF g, of json_load json_dump]
    empty_directory_untouched[OF n, of json_load json_dump] g n
  show ?thesis by blast
qed

text \<open>
  Claim C8. Whatever the directory holds and however the run ends, the names in the
  directory afterwards are the names before, in the same order; every write is preceded
  by a read of the same path, and every written path is a name of the directory.
\<close>

theorem no_file_created_or_deleted:
  "map fst (files (clear_cache load dump d)) = map fst d \<and>
   (\<forall>i < length (events (clear_cache load dump d)). \<forall>p.
      events (clear_cache load dump d) ! i = Write p \<longrightarrow>
        (\<exists>j < i. events (clear_cache load dump d) ! j = Read p)) \<and>
   (\<forall>p. Write p \<in> set (events (clear_cache load dump d)) \<longrightarrow> p \<in> set (map fst d))"
proof -
  obtain d' ev r where f: "for_files load dump (glob_json d) d = (d', ev, r)"
    and o: "files (clear_cache load dump d) = d'" "events (clear_cache load dump d) = ev"
    by (rule clear_cache_run)
  from for_files_events[OF f] have "\<forall>p. Write p \<in> set ev \<longrightarrow> p \<in> set (map fst d)"
    by (auto simp: glob_json_def)
  with for_files_names[OF f] for_files_read_before_write[OF f] show ?thesis
    unfolding o read_before_write_def by blast
qed

theorem no_file_created_or_deleted_witness:
  "map fst (files (clear_cache json_load json_dump ex_dir)) = [''a.json'', ''b.json'', ''notes.txt''] \<and>
   events (clear_cache json_load json_dump ex_dir) = [Read ''a.json'', Write ''a.json'', Read ''b.json'']"
  using no_file_created_or_deleted[of json_load json_dump ex_dir]
  by (simp add: clear_cache_ex_dir ex_dir_after_def)

text \<open>
  Claim C9. In a run that ends without an exception, a \<^verbatim>\<open>*.json\<close> file is written exactly
  when \<^verbatim>\<open>'messages' in data\<close> holds for its record. A record that has the key and that
  the loop leaves as it was is written all the same, as \<^verbatim>\<open>json.dump\<close> lays it out; a file
  whose record lacks the key keeps its contents. By \<open>clear_cache_total\<close> the run ends
  without an exception when every \<^verbatim>\<open>*.json\<close> entry is a file that holds a session record.
\<close>

theorem rewritten_iff_messages:
  assumes "raised (clear_cache load dump d) = None"
    and "distinct (map fst d)"
    and "(path, File c) \<in> set d"
    and "endswith path ''.json''"
    and "load c = Inr data"
  shows "(Write path \<in> set (events (clear_cache load dump d)) \<longleftrightarrow>
            py_contains ''messages'' data = Inr True) \<and>
         (py_contains ''messages'' data = Inr True \<longrightarrow> strip_rendered data = Inr data \<longrightarrow>
            open_read (files (clear_cache load dump d)) path = Inr (dump data 2)) \<and>
         (py_contains ''messages'' data \<noteq> Inr True \<longrightarrow>
            open_read (files (clear_cache load dump d)) path = Inr c)"
  using clear_cache_done[OF assms] by auto

theorem rewritten_iff_messages_witness:
  "raised (clear_cache json_load json_dump ex_clean_dir) = None \<and>
   distinct (map fst ex_clean_dir) \<and>
   (''c.json'', File ex_c_text) \<in> set ex_clean_dir \<and>
   endswith ''c.json'' ''.json'' \<and>
   json_load ex_c_text = Inr ex_clean \<and>
   py_contains ''messages'' ex_clean = Inr True \<and>
   strip_rendered ex_clean = Inr ex_clean \<and>
   Write ''c.json'' \<in> set (events (clear_cache json_load json_dump ex_clean_dir)) \<and>
   open_read (files (clear_cache json_load json_dump ex_clean_dir)) ''c.json'' =
     Inr (json_dump ex_clean 2) \<and>
   ex_c_text \<noteq> json_dump ex_clean 2 \<and>
   Write ''b.json'' \<notin> set (events (clear_cache json_load json_dump ex_clean_dir))"
proof -
  have r: "raised (clear_cache json_load json_dump ex_clean_dir) = None"
    by (simp add: clear_cache_ex_clean_dir)
  have d: "distinct (map fst ex_clean_dir)" by (simp add: ex_clean_dir_def)
  have m: "(''c.json'', File ex_c_text) \<in> set ex_clean_dir" by (simp add: ex_clean_dir_def)
  have e: "endswith ''c.json'' ''.json''" by (simp add: endswith_def)
  have c: "py_contains ''messages'' ex_clean = Inr True" by (simp add: ex_clean_def)
  have n: "ex_c_text \<noteq> json_dump ex_clean 2" by (simp add: ex_c_text_def json_dump_def)
  have b: "Write ''b.json'' \<notin> set (events (clear_cache json_load json_dump ex_clean_dir))"
    by (simp add: clear_cache_ex_clean_dir)
  from rewritten_iff_messages[OF r d m e load_ex_c] r d m e load_ex_c c strip_ex_clean n b
  show ?thesis by blast
qed

end
